theory Spec2Isabelle
  imports Complex_Main "HOL-Library.Word"
begin

section \<open>Binary64 arithmetic as used by the charge estimator\<close>

text \<open>
  The estimator computes its interpolation in C \<^verbatim>\<open>double\<close>.  A double is modelled as
  the rational it denotes, or an infinity, or NaN.  Every arithmetic operation computes
  the exact rational result and rounds it once to the nearest binary64 value, ties to the
  even significand (IEEE-754 round-to-nearest-even, the C default; no fused operations and
  no extended intermediate precision).  The sign of a zero is not recorded: the only
  division by zero the driver can perform has a divisor converted from the integer 0,
  which is +0.0, and a zero result converts to the integer 0 whatever its sign.
\<close>

datatype double = Fin rat | PInf | NInf | NaN

text \<open>\<open>bit_length n\<close> is the number of binary digits of \<open>n\<close>.\<close>

fun bit_length :: "nat \<Rightarrow> nat" where
  "bit_length n = (if n = 0 then 0 else Suc (bit_length (n div 2)))"

declare bit_length.simps [simp del]

text \<open>
  \<open>ilog2 x\<close> is the binary exponent of a positive rational \<open>x\<close>, the integer \<open>e\<close> with
  \<open>2 ^ e \<le> x < 2 ^ (e + 1)\<close>.
\<close>

definition ilog2 :: "rat \<Rightarrow> int" where
  "ilog2 x = (if 1 \<le> x then int (bit_length (nat \<lfloor>x\<rfloor>)) - 1
              else - int (bit_length (nat \<lceil>1 / x\<rceil> - 1)))"

definition round_ties_even :: "rat \<Rightarrow> int" where
  "round_ties_even x =
     (let n = \<lfloor>x\<rfloor>; r = x - of_int n
      in if r < 1 / 2 then n else if 1 / 2 < r then n + 1
         else if even n then n else n + 1)"

text \<open>
  Rounding to binary64: 53 significant bits, so the spacing of doubles around \<open>x\<close> is
  \<open>2 ^ (e - 52)\<close> for the exponent \<open>e\<close> of \<open>x\<close>, and \<open>2 ^ (- 1074)\<close> below the
  smallest normal number; a result of magnitude \<open>2 ^ 1024\<close> overflows to an infinity.
\<close>

definition round_double :: "rat \<Rightarrow> double" where
  "round_double x =
     (if x = 0 then Fin 0
      else let e = max (ilog2 \<bar>x\<bar>) (- 1022);
               ulp = 2 powi (e - 52);
               y = of_int (round_ties_even (x / ulp)) * ulp
           in if 2 ^ 1024 \<le> \<bar>y\<bar> then (if 0 < x then PInf else NInf) else Fin y)"

text \<open>A C \<^verbatim>\<open>int\<close> (32 bits) has at most 31 significant bits: the conversion is exact.\<close>

definition int_to_double :: "int \<Rightarrow> double" where
  "int_to_double i = Fin (of_int i)"

definition signed_inf :: "bool \<Rightarrow> double" where
  "signed_inf negative = (if negative then NInf else PInf)"

fun is_negative :: "double \<Rightarrow> bool" where
  "is_negative (Fin a) = (a < 0)"
| "is_negative NInf = True"
| "is_negative _ = False"


fun ddiv :: "double \<Rightarrow> double \<Rightarrow> double" where
  "ddiv NaN _ = NaN"
| "ddiv _ NaN = NaN"
| "ddiv (Fin a) (Fin b) =
     (if b = 0 then (if a = 0 then NaN else signed_inf (a < 0))
      else round_double (a / b))"
| "ddiv (Fin a) _ = Fin 0"
| "ddiv x (Fin b) = signed_inf (is_negative x \<noteq> (b < 0))"
| "ddiv _ _ = NaN"

fun dmul :: "double \<Rightarrow> double \<Rightarrow> double" where
  "dmul NaN _ = NaN"
| "dmul _ NaN = NaN"
| "dmul (Fin a) (Fin b) = round_double (a * b)"
| "dmul (Fin a) y = (if a = 0 then NaN else signed_inf ((a < 0) \<noteq> is_negative y))"
| "dmul x (Fin b) = (if b = 0 then NaN else signed_inf (is_negative x \<noteq> (b < 0)))"
| "dmul x y = signed_inf (is_negative x \<noteq> is_negative y)"

fun dadd :: "double \<Rightarrow> double \<Rightarrow> double" where
  "dadd NaN _ = NaN"
| "dadd _ NaN = NaN"
| "dadd (Fin a) (Fin b) = round_double (a + b)"
| "dadd (Fin a) y = y"
| "dadd x (Fin b) = x"
| "dadd x y = (if x = y then x else NaN)"

text \<open>
  Conversion of a double to \<^verbatim>\<open>uint8_t\<close> discards the fraction (truncation toward zero).
  C leaves the conversion undefined when the truncated value is not in 0..255, and for
  infinities and NaN; the model reports that as a fault.
\<close>

datatype fault = Float_Conversion_Undefined | Division_By_Zero

definition truncate_rat :: "rat \<Rightarrow> int" where
  "truncate_rat x = (if 0 \<le> x then \<lfloor>x\<rfloor> else \<lceil>x\<rceil>)"

fun double_to_uint8 :: "double \<Rightarrow> fault + 8 word" where
  "double_to_uint8 (Fin x) =
     (let t = truncate_rat x
      in if 0 \<le> t \<and> t \<le> 255 then Inr (word_of_int t) else Inl Float_Conversion_Undefined)"
| "double_to_uint8 _ = Inl Float_Conversion_Undefined"

section \<open>The discharge curve and the charge estimator\<close>

text \<open>
  \<^verbatim>\<open>struct charge_level { int16_t mv; uint8_t pct; }\<close>.  The fields are read only after
  integer promotion, so they are kept as the integers they denote.
\<close>

record charge_level =
  mv :: int
  pct :: int

definition cl :: "int \<Rightarrow> int \<Rightarrow> charge_level" where
  "cl m p = \<lparr>mv = m, pct = p\<rparr>"

definition BATTERY_CHARGE_LEVEL_LUT_COUNT :: nat where
  "BATTERY_CHARGE_LEVEL_LUT_COUNT = 27"

definition charge_level_lut :: "charge_level list" where
  "charge_level_lut =
    [cl 3434 0, cl 3457 4, cl 3487 8, cl 3520 12, cl 3545 15, cl 3577 19, cl 3595 23,
     cl 3609 27, cl 3618 31, cl 3625 35, cl 3633 38, cl 3643 42, cl 3656 46, cl 3672 50,
     cl 3696 54, cl 3733 58, cl 3767 62, cl 3796 65, cl 3825 69, cl 3862 73, cl 3899 77,
     cl 3936 81, cl 3976 85, cl 4023 88, cl 4068 92, cl 4120 96, cl 4177 100]"

text \<open>
  The body of the \<^verbatim>\<open>if\<close> inside the scan.  \<open>slope\<close> is the value of the
  variable of that name; the division has no guard.
\<close>

definition slope :: "charge_level \<Rightarrow> charge_level \<Rightarrow> double" where
  "slope lo hi =
     (let distAdjacent = int_to_double (mv hi - mv lo)
      in ddiv (int_to_double (pct hi - pct lo)) distAdjacent)"

definition interpolate :: "charge_level \<Rightarrow> charge_level \<Rightarrow> int \<Rightarrow> fault + 8 word" where
  "interpolate lo hi bat_mv =
     (let distLower = int_to_double (bat_mv - mv lo)
      in double_to_uint8 (dadd (int_to_double (pct lo)) (dmul (slope lo hi) distLower)))"

text \<open>
  The \<^verbatim>\<open>for\<close> loop over \<open>lut_idx\<close>, leaving at the first matching bracket; when the
  loop runs out, \<open>charge_state\<close> still holds its initial value 0.
\<close>

function scan_lut :: "charge_level list \<Rightarrow> nat \<Rightarrow> int \<Rightarrow> fault + 8 word" where
  "scan_lut lut lut_idx bat_mv =
     (if lut_idx < length lut - 1 then
        (if mv (lut ! lut_idx) \<le> bat_mv \<and> bat_mv \<le> mv (lut ! (lut_idx + 1))
         then interpolate (lut ! lut_idx) (lut ! (lut_idx + 1)) bat_mv
         else scan_lut lut (lut_idx + 1) bat_mv)
      else Inr 0)"
  by pat_completeness auto
termination
  by (relation "measure (\<lambda>(lut, lut_idx, bat_mv). length lut - 1 - lut_idx)") auto

declare scan_lut.simps [simp del]

text \<open>
  The estimator over a given table: the global array of the source is a parameter, and
  \<open>length lut\<close> stands for \<^verbatim>\<open>BATTERY_CHARGE_LEVEL_LUT_COUNT\<close>.  The driver calls
  it on \<open>charge_level_lut\<close> with an \<^verbatim>\<open>int16_t\<close> argument.
\<close>

definition mv_to_pct :: "charge_level list \<Rightarrow> int \<Rightarrow> fault + 8 word" where
  "mv_to_pct lut bat_mv =
     (if mv (lut ! (length lut - 1)) \<le> bat_mv then Inr 100 else scan_lut lut 0 bat_mv)"

definition lithium_ion_mv_to_pct :: "16 word \<Rightarrow> fault + 8 word" where
  "lithium_ion_mv_to_pct bat_mv = mv_to_pct charge_level_lut (sint bat_mv)"

section \<open>The sampling cycle\<close>

text \<open>
  The cycle talks to the host system through \<^verbatim>\<open>gpio_pin_set\<close>, \<^verbatim>\<open>adc_read\<close> and
  \<^verbatim>\<open>adc_raw_to_millivolts\<close>, none of which belongs to the driver.  Their outcomes are
  inputs of the model: the return code of \<^verbatim>\<open>gpio_pin_set\<close> for a pin and a value,
  the return code of \<^verbatim>\<open>adc_read\<close> together with the sample it leaves in the buffer
  \<open>adc_raw\<close>, and the conversion that \<^verbatim>\<open>adc_raw_to_millivolts\<close> applies to \<open>val\<close>
  for the reference, gain and resolution of the device.  \<open>ENOTSUP\<close> is the host's
  error number of that name.
\<close>

datatype sensor_channel =
  SENSOR_CHAN_GAUGE_VOLTAGE | SENSOR_CHAN_GAUGE_STATE_OF_CHARGE | SENSOR_CHAN_ALL
| SENSOR_CHAN_OTHER nat

record host =
  gpio_pin_set :: "8 word \<Rightarrow> int \<Rightarrow> int"
  adc_read :: "int \<times> 16 word"
  adc_raw_to_millivolts :: "32 word \<Rightarrow> 32 word"
  ENOTSUP :: int

text \<open>The fields of \<^verbatim>\<open>struct bvd_config\<close> and \<^verbatim>\<open>struct bvd_data\<close> that the cycle uses;
  \<open>gpio\<close> tells whether the pointer \<^verbatim>\<open>drv_data->gpio\<close> is non-null.\<close>

record bvd_config =
  power_gpios_pin :: "8 word"
  output_ohm :: "32 word"
  full_ohm :: "32 word"

record bvd_data =
  gpio :: bool
  as_calibrate :: bool
  adc_raw :: "16 word"
  voltage :: "16 word"
  state_of_charge :: "8 word"

text \<open>What the cycle asks of the host, in order.\<close>

datatype event = Gpio_Pin_Set "8 word" int | Adc_Read

text \<open>
  \<^verbatim>\<open>uint16_t millivolts = val * (uint64_t)full_ohm / drv_cfg->output_ohm\<close>: the
  \<^verbatim>\<open>int32_t\<close> \<open>val\<close> is converted to 64 bits unsigned (sign extension), product and
  quotient are computed on 64 bits, and the assignment keeps the low 16 bits.  C leaves a
  division by zero undefined.
\<close>

definition scale_up :: "bvd_config \<Rightarrow> 32 word \<Rightarrow> 64 word" where
  "scale_up cfg val = (scast val :: 64 word) * ucast (full_ohm cfg) div ucast (output_ohm cfg)"

text \<open>
  The branch \<^verbatim>\<open>rc == 0\<close>.  The estimator takes an \<^verbatim>\<open>int16_t\<close>: the 16 bits of
  \<open>millivolts\<close> are passed on as they are and read as a signed number there.
\<close>

definition store_sample :: "host \<Rightarrow> bvd_config \<Rightarrow> bvd_data \<Rightarrow> fault + bvd_data" where
  "store_sample h cfg d =
     (let val = adc_raw_to_millivolts h (ucast (adc_raw d))
      in if output_ohm cfg = 0 then Inl Division_By_Zero
         else let millivolts = (ucast (scale_up cfg val) :: 16 word)
              in case lithium_ion_mv_to_pct millivolts of
                   Inl f \<Rightarrow> Inl f
                 | Inr percent \<Rightarrow> Inr (d\<lparr>voltage := millivolts, state_of_charge := percent\<rparr>))"

text \<open>
  \<^verbatim>\<open>bvd_sample_fetch\<close>: the return code, the driver data after the call and the
  requests made to the host; a fault when the behaviour of the C code is undefined.
\<close>

definition bvd_sample_fetch ::
  "host \<Rightarrow> bvd_config \<Rightarrow> bvd_data \<Rightarrow> sensor_channel \<Rightarrow> fault + (int \<times> bvd_data \<times> event list)" where
  "bvd_sample_fetch h cfg d chan =
     (if chan \<noteq> SENSOR_CHAN_GAUGE_VOLTAGE \<and> chan \<noteq> SENSOR_CHAN_GAUGE_STATE_OF_CHARGE \<and>
         chan \<noteq> SENSOR_CHAN_ALL
      then Inr (- ENOTSUP h, d, [])
      else
        let pin = power_gpios_pin cfg;
            enable = (if gpio d then [Gpio_Pin_Set pin 1] else [])
        in if gpio d \<and> gpio_pin_set h pin 1 \<noteq> 0
           then Inr (gpio_pin_set h pin 1, d, enable)
           else
             let rc = fst (adc_read h);
                 d1 = d\<lparr>adc_raw := snd (adc_read h), as_calibrate := False\<rparr>
             in case (if rc = 0 then store_sample h cfg d1 else Inr d1) of
                  Inl f \<Rightarrow> Inl f
                | Inr d2 \<Rightarrow>
                    if gpio d then
                      (let rc2 = gpio_pin_set h pin 0;
                           requests = enable @ [Adc_Read, Gpio_Pin_Set pin 0]
                       in if rc2 \<noteq> 0 then Inr (rc2, d2, requests) else Inr (rc, d2, requests))
                    else Inr (rc, d2, enable @ [Adc_Read]))"

section \<open>Concrete inputs\<close>


text \<open>
  Hosts: one where every request succeeds and the conversion yields 3000 mV, one where the
  read fails with -5, and one where the read fails with -5 and the release of the power
  gate with -22.
\<close>

definition always_ok :: "8 word \<Rightarrow> int \<Rightarrow> int" where
  "always_ok pin value = 0"

definition release_fails :: "8 word \<Rightarrow> int \<Rightarrow> int" where
  "release_fails pin value = (if value = 0 then - 22 else 0)"

definition to_3000 :: "32 word \<Rightarrow> 32 word" where
  "to_3000 val = 3000"

definition working_host :: host where
  "working_host =
     \<lparr>gpio_pin_set = always_ok, adc_read = (0, 2047), adc_raw_to_millivolts = to_3000,
      ENOTSUP = 134\<rparr>"

definition read_fails_host :: host where
  "read_fails_host =
     \<lparr>gpio_pin_set = always_ok, adc_read = (- 5, 0), adc_raw_to_millivolts = to_3000,
      ENOTSUP = 134\<rparr>"

definition read_and_release_fail_host :: host where
  "read_and_release_fail_host =
     \<lparr>gpio_pin_set = release_fails, adc_read = (- 5, 0), adc_raw_to_millivolts = to_3000,
      ENOTSUP = 134\<rparr>"

definition sample_cfg :: bvd_config where
  "sample_cfg = \<lparr>power_gpios_pin = 5, output_ohm = 1000, full_ohm = 30000\<rparr>"

definition sample_data :: bvd_data where
  "sample_data =
     \<lparr>gpio = True, as_calibrate = True, adc_raw = 0, voltage = 3700, state_of_charge = 54\<rparr>"

section \<open>The estimator in the words of the specification\<close>

text \<open>
  The specification describes the estimator with exact arithmetic: saturate at the last
  breakpoint; otherwise take the first adjacent pair that brackets the input and
  interpolate linearly with true division, truncating the result; a pair with equal
  voltages gives the lower percent; no matching pair gives 0.
\<close>

fun find_bracket :: "charge_level list \<Rightarrow> int \<Rightarrow> (charge_level \<times> charge_level) option" where
  "find_bracket (lo # hi # rest) v =
     (if mv lo \<le> v \<and> v \<le> mv hi then Some (lo, hi) else find_bracket (hi # rest) v)"
| "find_bracket _ v = None"

definition spec_interp :: "charge_level \<Rightarrow> charge_level \<Rightarrow> int \<Rightarrow> int" where
  "spec_interp lo hi v =
     (if mv hi = mv lo then pct lo
      else truncate_rat (of_int (pct lo) +
             of_int (pct hi - pct lo) * of_int (v - mv lo) / of_int (mv hi - mv lo)))"

definition spec_scan :: "charge_level list \<Rightarrow> int \<Rightarrow> int" where
  "spec_scan curve v =
     (case find_bracket curve v of Some (lo, hi) \<Rightarrow> spec_interp lo hi v | None \<Rightarrow> 0)"

definition spec_estimate :: "charge_level list \<Rightarrow> int \<Rightarrow> int" where
  "spec_estimate curve v = (if mv (last curve) \<le> v then 100 else spec_scan curve v)"

section \<open>Auxiliary notions of the verification\<close>

text \<open>Rounding of a number whose binary exponent \<open>e\<close> is known and in the normal range.\<close>

definition round_normal :: "rat \<Rightarrow> int \<Rightarrow> double" where
  "round_normal x e = Fin (of_int (round_ties_even (x / 2 powi (e - 52))) * 2 powi (e - 52))"

text \<open>A predicate holds at every integer of a closed range.\<close>

function check_range :: "(int \<Rightarrow> bool) \<Rightarrow> int \<Rightarrow> int \<Rightarrow> bool" where
  "check_range P lo hi = (if hi < lo then True else P lo \<and> check_range P (lo + 1) hi)"
  by pat_completeness auto
termination
  by (relation "measure (\<lambda>(P, lo, hi). nat (hi + 1 - lo))") auto

declare check_range.simps [simp del]

text \<open>A relation holds of every adjacent pair of a table.\<close>

fun all_brackets :: "(charge_level \<Rightarrow> charge_level \<Rightarrow> bool) \<Rightarrow> charge_level list \<Rightarrow> bool" where
  "all_brackets P (lo # hi # rest) = (P lo hi \<and> all_brackets P (hi # rest))"
| "all_brackets P _ = True"

text \<open>Voltages strictly ascending, percents ascending from 0 on.\<close>

definition ascending :: "charge_level \<Rightarrow> charge_level \<Rightarrow> bool" where
  "ascending lo hi \<longleftrightarrow> mv lo < mv hi \<and> 0 \<le> pct lo \<and> pct lo \<le> pct hi"

text \<open>On a whole bracket the double computation yields what exact arithmetic yields.\<close>

definition bracket_agrees :: "charge_level \<Rightarrow> charge_level \<Rightarrow> bool" where
  "bracket_agrees lo hi =
     check_range (\<lambda>v. interpolate lo hi v = Inr (word_of_int (spec_interp lo hi v)))
       (mv lo) (mv hi)"

section \<open>Rounding: exponent and magnitude\<close>

lemma bit_length_0: "bit_length 0 = 0"
  by (simp add: bit_length.simps)

lemma bit_length_pos: "0 < n \<Longrightarrow> bit_length n = Suc (bit_length (n div 2))"
  by (simp add: bit_length.simps)

lemma bit_length_upper: "n < 2 ^ bit_length n"
proof (induction n rule: bit_length.induct)
  case (1 n)
  show ?case
  proof (cases "n = 0")
    case True
    then show ?thesis by (simp add: bit_length_0)
  next
    case False
    with 1 have "n div 2 < 2 ^ bit_length (n div 2)" by simp
    then have "n < 2 * 2 ^ bit_length (n div 2)" by linarith
    with False show ?thesis by (simp add: bit_length_pos)
  qed
qed

lemma bit_length_lower: "0 < n \<Longrightarrow> 2 ^ (bit_length n - 1) \<le> n"
proof (induction n rule: bit_length.induct)
  case (1 n)
  show ?case
  proof (cases "n div 2 = 0")
    case True
    with 1 show ?thesis by (simp add: bit_length_pos bit_length_0)
  next
    case False
    with 1 have "2 ^ (bit_length (n div 2) - 1) \<le> n div 2" by simp
    moreover from False have "0 < bit_length (n div 2)" by (simp add: bit_length_pos)
    ultimately have "2 ^ bit_length (n div 2) \<le> 2 * (n div 2)"
      by (cases "bit_length (n div 2)") simp_all
    with 1 show ?thesis by (simp add: bit_length_pos)
  qed
qed

lemma ilog2_lower:
  assumes "0 < x"
  shows "2 powi (ilog2 x) \<le> x"
proof (cases "1 \<le> x")
  case True
  define n where "n = nat \<lfloor>x\<rfloor>"
  from True have n: "0 < n" "of_nat n \<le> x"
    by (simp_all add: n_def le_floor_iff)
  then obtain k where k: "bit_length n = Suc k" by (auto simp: bit_length_pos)
  have "(2::rat) powi (ilog2 x) = 2 powi (int k)"
    using True by (simp add: ilog2_def n_def [symmetric] k del: power_int_of_nat)
  also have "\<dots> = of_nat (2 ^ k)" by simp
  also have "\<dots> \<le> of_nat n" using bit_length_lower [OF n(1)] by (simp only: of_nat_le_iff k) simp
  finally show ?thesis using n(2) by simp
next
  case False
  define c where "c = \<lceil>1 / x\<rceil>"
  define m where "m = nat c - 1"
  from False assms have "1 < 1 / x" by simp
  then have c: "2 \<le> c" by (simp add: c_def le_ceiling_iff)
  then have cm: "c = int (m + 1)" by (simp add: m_def)
  have "1 / x \<le> of_int c" unfolding c_def by (rule le_of_int_ceiling)
  also have "\<dots> = of_nat (m + 1)" by (simp only: cm of_int_of_nat_eq)
  also have "\<dots> \<le> of_nat (2 ^ bit_length m)"
    using bit_length_upper [of m] by (simp only: of_nat_le_iff)
  finally have "1 / x \<le> 2 ^ bit_length m" by simp
  with assms have "1 \<le> x * 2 ^ bit_length m"
    by (simp add: pos_divide_le_eq mult.commute)
  then have "1 / 2 ^ bit_length m \<le> x"
    by (simp add: pos_divide_le_eq)
  moreover have "ilog2 x = - int (bit_length m)"
    using False by (simp only: ilog2_def m_def c_def if_False)
  ultimately show ?thesis
    by (simp only: power_int_minus_divide power_int_of_nat)
qed

lemma ilog2_upper:
  assumes "0 < x"
  shows "x < 2 powi (ilog2 x + 1)"
proof (cases "1 \<le> x")
  case True
  define n where "n = nat \<lfloor>x\<rfloor>"
  have "x < of_int \<lfloor>x\<rfloor> + 1" using floor_correct [of x] by simp
  also have "\<dots> = of_nat (n + 1)" using True by (simp add: n_def)
  also have "\<dots> \<le> of_nat (2 ^ bit_length n)"
    using bit_length_upper [of n] by (simp only: of_nat_le_iff)
  finally have "x < 2 powi (int (bit_length n))" by simp
  moreover have "ilog2 x + 1 = int (bit_length n)"
    using True by (simp add: ilog2_def n_def)
  ultimately show ?thesis by (simp only:)
next
  case False
  define c where "c = \<lceil>1 / x\<rceil>"
  define m where "m = nat c - 1"
  from False assms have "1 < 1 / x" by simp
  then have c: "2 \<le> c" by (simp add: c_def le_ceiling_iff)
  then have m: "0 < m" and cm: "c - 1 = int m" by (simp_all add: m_def)
  then obtain k where k: "bit_length m = Suc k" by (auto simp: bit_length_pos)
  have "(2::rat) ^ k = of_nat (2 ^ k)" by simp
  also have "\<dots> \<le> of_nat m" using bit_length_lower [OF m] by (simp only: of_nat_le_iff k) simp
  also have "\<dots> = of_int (c - 1)" by (simp only: cm of_int_of_nat_eq)
  also have "\<dots> < 1 / x" using ceiling_correct [of "1 / x"] by (simp add: c_def)
  finally have "2 ^ k < 1 / x" .
  with assms have "x * 2 ^ k < 1"
    by (simp add: pos_less_divide_eq mult.commute)
  then have "x < 1 / 2 ^ k"
    by (simp add: pos_less_divide_eq)
  moreover have "ilog2 x = - int (bit_length m)"
    using False by (simp only: ilog2_def m_def c_def if_False)
  then have "ilog2 x + 1 = - int k" by (simp add: k)
  ultimately show ?thesis
    by (simp only: power_int_minus_divide power_int_of_nat)
qed

lemma round_ties_even_cases:
  "round_ties_even x = \<lfloor>x\<rfloor> \<or> round_ties_even x = \<lfloor>x\<rfloor> + 1"
  by (simp add: round_ties_even_def Let_def)

lemma round_ties_even_bounds:
  "of_int (round_ties_even x) \<le> x + 1" "x - 1 \<le> of_int (round_ties_even x)"
proof -
  have fl: "of_int \<lfloor>x\<rfloor> \<le> x" "x < of_int \<lfloor>x\<rfloor> + 1"
    using floor_correct [of x] by simp_all
  have "(of_int (round_ties_even x) :: rat) = of_int \<lfloor>x\<rfloor>
      \<or> (of_int (round_ties_even x) :: rat) = of_int \<lfloor>x\<rfloor> + 1"
    using round_ties_even_cases [of x] by auto
  with fl show "of_int (round_ties_even x) \<le> x + 1" "x - 1 \<le> of_int (round_ties_even x)"
    by linarith+
qed

lemma round_double_moderate:
  assumes lo: "1 / 2 ^ 16 \<le> \<bar>x\<bar>" and hi: "\<bar>x\<bar> \<le> 2 ^ 32"
  shows "round_double x = round_normal x (ilog2 \<bar>x\<bar>)"
proof -
  define e where "e = ilog2 \<bar>x\<bar>"
  define u :: rat where "u = 2 powi (e - 52)"
  define y where "y = of_int (round_ties_even (x / u)) * u"
  from lo have pos: "0 < \<bar>x\<bar>" and nz: "x \<noteq> 0" by auto
  have "(2::rat) powi (- 16) \<le> \<bar>x\<bar>" using lo by (simp add: power_int_minus_divide)
  also have "\<bar>x\<bar> < 2 powi (e + 1)" unfolding e_def by (rule ilog2_upper [OF pos])
  finally have "(2::rat) powi (- 16) < 2 powi (e + 1)" .
  then have e_lo: "- 17 \<le> e"
    using power_int_increasing [of "e + 1" "- 16" "2::rat"] by (cases "e + 1 \<le> - 16") simp_all
  have up: "\<bar>x\<bar> < 2 powi (e + 1)" unfolding e_def by (rule ilog2_upper [OF pos])
  have "(2::rat) powi e \<le> \<bar>x\<bar>" unfolding e_def by (rule ilog2_lower [OF pos])
  also have "\<bar>x\<bar> \<le> 2 powi 32" using hi by simp
  finally have "(2::rat) powi e \<le> 2 powi 32" .
  then have e_hi: "e \<le> 32"
    using power_int_strict_increasing [of 32 e "2::rat"] by (cases "32 < e") simp_all
  have u_pos: "0 < u" by (simp add: u_def)
  have "\<bar>x / u\<bar> = \<bar>x\<bar> / u" using u_pos by simp
  also have "\<dots> < 2 powi (e + 1) / u" using up u_pos by (simp add: divide_strict_right_mono)
  also have "\<dots> = 2 powi ((e + 1) - (e - 52))" unfolding u_def by (subst power_int_diff) simp_all
  also have "\<dots> = 2 ^ 53" by simp
  finally have q: "\<bar>x / u\<bar> < 2 ^ 53" .
  have "\<bar>of_int (round_ties_even (x / u)) :: rat\<bar> \<le> \<bar>x / u\<bar> + 1"
    using round_ties_even_bounds [of "x / u"] by linarith
  also have "\<dots> \<le> 2 ^ 53 + 1" using q by simp
  also have "\<dots> \<le> (2::rat) ^ 54" by simp
  finally have r: "\<bar>of_int (round_ties_even (x / u)) :: rat\<bar> \<le> 2 ^ 54" .
  have "u \<le> 2 powi (- 20)" unfolding u_def using e_hi by (intro power_int_increasing) simp_all
  then have u_le: "u \<le> 1" by (simp add: power_int_minus_divide) 
  have "\<bar>y\<bar> = \<bar>of_int (round_ties_even (x / u)) :: rat\<bar> * u"
    using u_pos by (simp add: y_def abs_mult)
  also have "\<dots> \<le> 2 ^ 54 * 1"
    using r u_le u_pos by (intro mult_mono) simp_all
  also have "\<dots> < 2 ^ 1024" by simp
  finally have y: "\<not> 2 ^ 1024 \<le> \<bar>y\<bar>" by simp
  have "max e (- 1022) = e" using e_lo by simp
  then show ?thesis
    using nz y
    by (simp add: round_double_def round_normal_def Let_def e_def [symmetric] u_def [symmetric] y_def [symmetric])
qed


section \<open>Evaluation rules\<close>

lemma floor_rat_numeral_div:
  "\<lfloor>numeral a / numeral b :: rat\<rfloor> = numeral a div numeral b"
  using floor_divide_of_int_eq [of "numeral a" "numeral b", where ?'a = rat] by simp

lemma ceiling_rat_numeral_div:
  "\<lceil>numeral a / numeral b :: rat\<rceil> = - ((- numeral a) div numeral b)"
  using floor_divide_of_int_eq [of "- numeral a" "numeral b", where ?'a = rat]
  by (simp add: ceiling_def)

lemma round_double_0: "round_double 0 = Fin 0"
  by (simp add: round_double_def)

lemma mv_cl: "mv (cl m p) = m" and pct_cl: "pct (cl m p) = p"
  by (simp_all add: cl_def)

lemma check_range_done: "hi < lo \<Longrightarrow> check_range P lo hi = True"
  by (simp add: check_range.simps)

lemma check_range_step:
  "lo \<le> hi \<Longrightarrow> check_range P lo hi = (P lo \<and> check_range P (lo + 1) hi)"
  by (simp add: check_range.simps)

lemma check_rangeD: "check_range P lo hi \<Longrightarrow> lo \<le> v \<Longrightarrow> v \<le> hi \<Longrightarrow> P v"
proof (induction P lo hi rule: check_range.induct)
  case (1 P lo hi)
  from "1.prems" have le: "lo \<le> hi" by simp
  with "1.prems"(1) have here: "P lo" and rest: "check_range P (lo + 1) hi"
    by (simp_all add: check_range_step)
  show ?case
  proof (cases "v = lo")
    case True
    with here show ?thesis by simp
  next
    case False
    with "1.prems" have "lo + 1 \<le> v" by simp
    with "1.IH" le rest "1.prems"(3) show ?thesis by simp
  qed
qed

lemmas eval_double = floor_rat_numeral_div ceiling_rat_numeral_div bit_length_0 bit_length_pos
  interpolate_def slope_def mv_cl pct_cl int_to_double_def round_double_0 round_double_moderate
  round_normal_def ilog2_def Let_def round_ties_even_def truncate_rat_def

lemmas eval_bracket = bracket_agrees_def spec_interp_def check_range_done check_range_step
  eval_double

section \<open>The double computation against exact arithmetic, bracket by bracket\<close>

lemma bracket_0: "bracket_agrees (cl 3434 0) (cl 3457 4)"
  by (simp add: eval_bracket)

lemma bracket_1: "bracket_agrees (cl 3457 4) (cl 3487 8)"
  by (simp add: eval_bracket)

lemma bracket_2: "bracket_agrees (cl 3487 8) (cl 3520 12)"
  by (simp add: eval_bracket)

lemma bracket_3: "bracket_agrees (cl 3520 12) (cl 3545 15)"
  by (simp add: eval_bracket)

lemma bracket_4: "bracket_agrees (cl 3545 15) (cl 3577 19)"
  by (simp add: eval_bracket)

lemma bracket_5: "bracket_agrees (cl 3577 19) (cl 3595 23)"
  by (simp add: eval_bracket)

lemma bracket_6: "bracket_agrees (cl 3595 23) (cl 3609 27)"
  by (simp add: eval_bracket)

lemma bracket_7: "bracket_agrees (cl 3609 27) (cl 3618 31)"
  by (simp add: eval_bracket)

lemma bracket_8: "bracket_agrees (cl 3618 31) (cl 3625 35)"
  by (simp add: eval_bracket)

lemma bracket_9: "bracket_agrees (cl 3625 35) (cl 3633 38)"
  by (simp add: eval_bracket)

lemma bracket_10: "bracket_agrees (cl 3633 38) (cl 3643 42)"
  by (simp add: eval_bracket)

lemma bracket_11: "bracket_agrees (cl 3643 42) (cl 3656 46)"
  by (simp add: eval_bracket)

lemma bracket_12: "bracket_agrees (cl 3656 46) (cl 3672 50)"
  by (simp add: eval_bracket)

lemma bracket_13: "bracket_agrees (cl 3672 50) (cl 3696 54)"
  by (simp add: eval_bracket)

lemma bracket_14: "bracket_agrees (cl 3696 54) (cl 3733 58)"
  by (simp add: eval_bracket)

lemma bracket_15: "bracket_agrees (cl 3733 58) (cl 3767 62)"
  by (simp add: eval_bracket)

lemma bracket_16: "bracket_agrees (cl 3767 62) (cl 3796 65)"
  by (simp add: eval_bracket)

lemma bracket_17: "bracket_agrees (cl 3796 65) (cl 3825 69)"
  by (simp add: eval_bracket)

lemma bracket_18: "bracket_agrees (cl 3825 69) (cl 3862 73)"
  by (simp add: eval_bracket)

lemma bracket_19: "bracket_agrees (cl 3862 73) (cl 3899 77)"
  by (simp add: eval_bracket)

lemma bracket_20: "bracket_agrees (cl 3899 77) (cl 3936 81)"
  by (simp add: eval_bracket)

lemma bracket_21: "bracket_agrees (cl 3936 81) (cl 3976 85)"
  by (simp add: eval_bracket)

lemma bracket_22: "bracket_agrees (cl 3976 85) (cl 4023 88)"
  by (simp add: eval_bracket)

lemma bracket_23: "bracket_agrees (cl 4023 88) (cl 4068 92)"
  by (simp add: eval_bracket)

lemma bracket_24: "bracket_agrees (cl 4068 92) (cl 4120 96)"
  by (simp add: eval_bracket)

lemma bracket_25: "bracket_agrees (cl 4120 96) (cl 4177 100)"
  by (simp add: eval_bracket)

lemma lut_agrees: "all_brackets bracket_agrees charge_level_lut"
  by (simp add: charge_level_lut_def
      bracket_0 bracket_1 bracket_2 bracket_3 bracket_4 bracket_5 bracket_6
      bracket_7 bracket_8 bracket_9 bracket_10 bracket_11 bracket_12 bracket_13
      bracket_14 bracket_15 bracket_16 bracket_17 bracket_18 bracket_19 bracket_20
      bracket_21 bracket_22 bracket_23 bracket_24 bracket_25)

section \<open>The scan finds the first bracket\<close>

lemma scan_lut_find:
  "scan_lut lut lut_idx bat_mv =
     (case find_bracket (drop lut_idx lut) bat_mv of
        None \<Rightarrow> Inr 0 | Some (lo, hi) \<Rightarrow> interpolate lo hi bat_mv)"
proof (induction lut lut_idx bat_mv rule: scan_lut.induct)
  case (1 lut lut_idx bat_mv)
  show ?case
  proof (cases "lut_idx < length lut - 1")
    case True
    then have "drop lut_idx lut = lut ! lut_idx # lut ! (lut_idx + 1) # drop (lut_idx + 2) lut"
      by (simp add: Cons_nth_drop_Suc)
    moreover from True
    have "drop (lut_idx + 1) lut = lut ! (lut_idx + 1) # drop (lut_idx + 2) lut"
      by (simp add: Cons_nth_drop_Suc)
    ultimately show ?thesis
      using True "1.IH" by (subst scan_lut.simps) simp
  next
    case False
    then have "length (drop lut_idx lut) \<le> 1" by simp
    then have "drop lut_idx lut = [] \<or> (\<exists>x. drop lut_idx lut = [x])"
      by (cases "drop lut_idx lut") auto
    then have "find_bracket (drop lut_idx lut) bat_mv = None"
      by auto
    with False show ?thesis by (subst scan_lut.simps) simp
  qed
qed

lemma find_bracket_holds:
  "find_bracket xs v = Some (lo, hi) \<Longrightarrow> all_brackets P xs \<Longrightarrow> P lo hi"
  by (induction xs v rule: find_bracket.induct) (auto split: if_splits)

lemma find_bracket_brackets:
  "find_bracket xs v = Some (lo, hi) \<Longrightarrow> mv lo \<le> v \<and> v \<le> mv hi"
  by (induction xs v rule: find_bracket.induct) (auto split: if_splits)

theorem mv_to_pct_refines:
  assumes "all_brackets bracket_agrees lut" and "lut \<noteq> []"
  shows "mv_to_pct lut v = Inr (word_of_int (spec_estimate lut v))"
proof (cases "mv (last lut) \<le> v")
  case True
  with assms(2) show ?thesis
    by (simp add: mv_to_pct_def spec_estimate_def last_conv_nth)
next
  case False
  show ?thesis
  proof (cases "find_bracket lut v")
    case None
    with False assms(2) show ?thesis
      by (simp add: mv_to_pct_def spec_estimate_def spec_scan_def last_conv_nth scan_lut_find)
  next
    case (Some p)
    obtain lo hi where p: "p = (lo, hi)" by (cases p)
    from Some p have found: "find_bracket lut v = Some (lo, hi)" by simp
    from find_bracket_holds [OF found assms(1)] find_bracket_brackets [OF found]
    have "interpolate lo hi v = Inr (word_of_int (spec_interp lo hi v))"
      unfolding bracket_agrees_def by (auto dest: check_rangeD)
    with False assms(2) found show ?thesis
      by (simp add: mv_to_pct_def spec_estimate_def spec_scan_def last_conv_nth scan_lut_find)
  qed
qed

section \<open>The exact curve on an ascending table\<close>

lemma ascendingD:
  assumes "ascending lo hi"
  shows "mv lo < mv hi" and "0 \<le> pct lo" and "pct lo \<le> pct hi"
  using assms by (simp_all add: ascending_def)

lemma spec_interp_div:
  assumes "ascending lo hi" and "mv lo \<le> v"
  shows "spec_interp lo hi v = pct lo + (pct hi - pct lo) * (v - mv lo) div (mv hi - mv lo)"
proof -
  from assms have d: "0 < mv hi - mv lo" and n: "0 \<le> (pct hi - pct lo) * (v - mv lo)"
    and p: "0 \<le> pct lo"
    by (simp_all add: ascending_def)
  let ?q = "(of_int ((pct hi - pct lo) * (v - mv lo)) :: rat) / of_int (mv hi - mv lo)"
  have q: "0 \<le> ?q" using d n
    by (intro divide_nonneg_pos) (simp_all only: of_int_0_le_iff of_int_0_less_iff)
  have "truncate_rat (of_int (pct lo) + ?q) = \<lfloor>of_int (pct lo) + ?q\<rfloor>"
    using p q by (simp add: truncate_rat_def)
  also have "\<dots> = pct lo + \<lfloor>?q\<rfloor>" by (rule int_add_floor [symmetric])
  also have "\<lfloor>?q\<rfloor> = (pct hi - pct lo) * (v - mv lo) div (mv hi - mv lo)"
    by (rule floor_divide_of_int_eq)
  finally show ?thesis using d by (simp add: spec_interp_def)
qed

lemma spec_interp_bounds:
  assumes "ascending lo hi" and "mv lo \<le> v" and "v \<le> mv hi"
  shows "pct lo \<le> spec_interp lo hi v" and "spec_interp lo hi v \<le> pct hi"
proof -
  from assms have d: "0 < mv hi - mv lo" and dp: "0 \<le> pct hi - pct lo"
    by (simp_all add: ascending_def)
  from assms dp have n: "0 \<le> (pct hi - pct lo) * (v - mv lo)" by simp
  from assms dp have "(pct hi - pct lo) * (v - mv lo) \<le> (pct hi - pct lo) * (mv hi - mv lo)"
    by (intro mult_left_mono) simp_all
  then have "(pct hi - pct lo) * (v - mv lo) div (mv hi - mv lo)
      \<le> (pct hi - pct lo) * (mv hi - mv lo) div (mv hi - mv lo)"
    using d by (intro zdiv_mono1) simp_all
  also have "\<dots> = pct hi - pct lo" using d by simp
  finally show "spec_interp lo hi v \<le> pct hi"
    by (simp add: spec_interp_div [OF assms(1,2)])
  from n d have "0 \<le> (pct hi - pct lo) * (v - mv lo) div (mv hi - mv lo)"
    by (simp add: pos_imp_zdiv_nonneg_iff)
  then show "pct lo \<le> spec_interp lo hi v"
    by (simp add: spec_interp_div [OF assms(1,2)])
qed

lemma spec_interp_mono:
  assumes "ascending lo hi" and "mv lo \<le> v" and "v \<le> w"
  shows "spec_interp lo hi v \<le> spec_interp lo hi w"
proof -
  from assms have d: "0 < mv hi - mv lo" and dp: "0 \<le> pct hi - pct lo"
    by (simp_all add: ascending_def)
  from assms dp have "(pct hi - pct lo) * (v - mv lo) \<le> (pct hi - pct lo) * (w - mv lo)"
    by (intro mult_left_mono) simp_all
  then have "(pct hi - pct lo) * (v - mv lo) div (mv hi - mv lo)
      \<le> (pct hi - pct lo) * (w - mv lo) div (mv hi - mv lo)"
    using d by (intro zdiv_mono1) simp_all
  with assms show ?thesis
    by (simp add: spec_interp_div)
qed

lemma spec_interp_lower_end: "spec_interp lo hi (mv lo) = pct lo"
  by (simp add: spec_interp_def truncate_rat_def)

lemma spec_interp_upper_end:
  assumes "ascending lo hi"
  shows "spec_interp lo hi (mv hi) = pct hi"
proof -
  from assms have "mv lo \<le> mv hi" "mv hi - mv lo \<noteq> 0" by (simp_all add: ascending_def)
  with assms show ?thesis by (simp add: spec_interp_div)
qed

lemma ascending_last:
  "all_brackets ascending (c # cs) \<Longrightarrow> mv c \<le> mv (last (c # cs)) \<and> pct c \<le> pct (last (c # cs))"
proof (induction cs arbitrary: c)
  case Nil
  show ?case by simp
next
  case (Cons hi rest)
  from Cons.prems have asc: "ascending c hi" and tl: "all_brackets ascending (hi # rest)"
    by simp_all
  from Cons.IH [OF tl] ascendingD [OF asc] show ?case by simp
qed

lemma find_bracket_below:
  "all_brackets ascending (c # cs) \<Longrightarrow> v < mv c \<Longrightarrow> find_bracket (c # cs) v = None"
proof (induction cs arbitrary: c)
  case Nil
  show ?case by simp
next
  case (Cons hi rest)
  from Cons.prems have asc: "ascending c hi" and tl: "all_brackets ascending (hi # rest)"
    by simp_all
  from Cons.IH [OF tl] ascendingD(1) [OF asc] Cons.prems(2) show ?case by simp
qed

lemma find_bracket_within:
  "all_brackets ascending (c # cs) \<Longrightarrow> mv c \<le> v \<Longrightarrow> v < mv (last (c # cs)) \<Longrightarrow>
   \<exists>lo hi. find_bracket (c # cs) v = Some (lo, hi) \<and> ascending lo hi \<and>
     pct c \<le> pct lo \<and> pct hi \<le> pct (last (c # cs))"
proof (induction cs arbitrary: c)
  case Nil
  then show ?case by simp
next
  case (Cons hi rest)
  from Cons.prems have asc: "ascending c hi" and tl: "all_brackets ascending (hi # rest)"
    by simp_all
  show ?case
  proof (cases "v \<le> mv hi")
    case True
    with Cons.prems(2) asc ascending_last [OF tl] show ?thesis by simp
  next
    case False
    with Cons.IH [OF tl] Cons.prems(3) obtain lo' hi'
      where "find_bracket (hi # rest) v = Some (lo', hi')" "ascending lo' hi'"
        "pct hi \<le> pct lo'" "pct hi' \<le> pct (last (hi # rest))"
      by auto
    with False ascendingD [OF asc] show ?thesis by auto
  qed
qed

lemma spec_scan_below:
  "all_brackets ascending (c # cs) \<Longrightarrow> v < mv c \<Longrightarrow> spec_scan (c # cs) v = 0"
  by (simp add: spec_scan_def find_bracket_below)

lemma spec_scan_within:
  assumes "all_brackets ascending (c # cs)" and "mv c \<le> v" and "v < mv (last (c # cs))"
  shows "pct c \<le> spec_scan (c # cs) v \<and> spec_scan (c # cs) v \<le> pct (last (c # cs))"
proof -
  from find_bracket_within [OF assms] obtain lo hi
    where f: "find_bracket (c # cs) v = Some (lo, hi)" and a: "ascending lo hi"
      and p: "pct c \<le> pct lo" "pct hi \<le> pct (last (c # cs))"
    by blast
  from find_bracket_brackets [OF f] spec_interp_bounds [OF a, of v] p f show ?thesis
    by (simp add: spec_scan_def)
qed

lemma spec_scan_Cons:
  "spec_scan (lo # hi # rest) v =
     (if mv lo \<le> v \<and> v \<le> mv hi then spec_interp lo hi v else spec_scan (hi # rest) v)"
  by (simp add: spec_scan_def)

lemma spec_scan_short: "spec_scan [] v = 0" "spec_scan [c] v = 0"
  by (simp_all add: spec_scan_def)

lemma spec_scan_nonneg:
  assumes "all_brackets ascending xs"
  shows "0 \<le> spec_scan xs v"
proof (cases "find_bracket xs v")
  case None
  then show ?thesis by (simp add: spec_scan_def)
next
  case (Some p)
  obtain lo hi where "p = (lo, hi)" by (cases p)
  with Some have f: "find_bracket xs v = Some (lo, hi)" by simp
  from find_bracket_holds [OF f assms] have a: "ascending lo hi" .
  from find_bracket_brackets [OF f] spec_interp_bounds(1) [OF a, of v] ascendingD(2) [OF a] f
  show ?thesis by (simp add: spec_scan_def)
qed

lemma spec_scan_mono:
  "all_brackets ascending xs \<Longrightarrow> v \<le> w \<Longrightarrow> w < mv (last xs) \<Longrightarrow>
   spec_scan xs v \<le> spec_scan xs w"
proof (induction xs v rule: find_bracket.induct)
  case (1 lo hi rest v)
  from "1.prems"(1) have asc: "ascending lo hi" and tl: "all_brackets ascending (hi # rest)"
    by simp_all
  from "1.prems"(3) have w: "w < mv (last (hi # rest))" by simp
  consider "v < mv lo" | "mv lo \<le> v" "w \<le> mv hi" | "mv lo \<le> v" "v \<le> mv hi" "mv hi < w"
    | "mv hi < v"
    using "1.prems"(2) by linarith
  then show ?case
  proof cases
    case 1
    with spec_scan_below [OF "1.prems"(1)] spec_scan_nonneg [OF "1.prems"(1), of w]
    show ?thesis by simp
  next
    case 2
    with "1.prems"(2) spec_interp_mono [OF asc, of v w] show ?thesis
      by (simp add: spec_scan_Cons)
  next
    case 3
    from spec_scan_within [OF tl _ w] 3 have "pct hi \<le> spec_scan (hi # rest) w" by simp
    with spec_interp_bounds(2) [OF asc, of v] 3 show ?thesis
      by (simp add: spec_scan_Cons)
  next
    case 4
    with "1.prems"(2) have "mv hi < w" by simp
    with 4 "1.IH" [OF _ tl "1.prems"(2) w] show ?thesis
      by (simp add: spec_scan_Cons)
  qed
qed (simp_all add: spec_scan_short)

theorem spec_estimate_range:
  assumes "all_brackets ascending lut" and "lut \<noteq> []" and "pct (last lut) \<le> 100"
  shows "0 \<le> spec_estimate lut v" and "spec_estimate lut v \<le> 100"
proof -
  from assms(2) obtain c cs where lut: "lut = c # cs" by (cases lut) auto
  show "0 \<le> spec_estimate lut v"
    using spec_scan_nonneg [OF assms(1)] by (simp add: spec_estimate_def)
  show "spec_estimate lut v \<le> 100"
  proof (cases "v < mv c")
    case True
    with spec_scan_below [of c cs v] assms(1) show ?thesis
      by (simp add: spec_estimate_def lut)
  next
    case False
    with spec_scan_within [of c cs v] assms(1,3) show ?thesis
      by (auto simp: spec_estimate_def lut)
  qed
qed

theorem spec_estimate_mono:
  assumes "all_brackets ascending lut" and "lut \<noteq> []" and "pct (last lut) \<le> 100"
    and "v \<le> w"
  shows "spec_estimate lut v \<le> spec_estimate lut w"
proof (cases "mv (last lut) \<le> w")
  case True
  with spec_estimate_range(2) [OF assms(1-3), of v] show ?thesis
    by (simp add: spec_estimate_def)
next
  case False
  with assms(4) spec_scan_mono [OF assms(1), of v w] show ?thesis
    by (simp add: spec_estimate_def)
qed

lemma lut_ascending: "all_brackets ascending charge_level_lut"
  by (simp add: charge_level_lut_def ascending_def mv_cl pct_cl)

lemma lut_last: "mv (last charge_level_lut) = 4177" "pct (last charge_level_lut) = 100"
  by (simp_all add: charge_level_lut_def mv_cl pct_cl)

lemma lut_first: "charge_level_lut = cl 3434 0 # tl charge_level_lut"
  by (simp add: charge_level_lut_def)

lemma lut_nonempty: "charge_level_lut \<noteq> []"
  by (simp add: charge_level_lut_def)

text \<open>The table has the declared number of entries, each within the range of its C type.\<close>

lemma lut_count: "length charge_level_lut = BATTERY_CHARGE_LEVEL_LUT_COUNT"
  by (simp add: charge_level_lut_def BATTERY_CHARGE_LEVEL_LUT_COUNT_def)

lemma lut_in_range:
  "list_all (\<lambda>c. - (2 ^ 15) \<le> mv c \<and> mv c < 2 ^ 15 \<and> 0 \<le> pct c \<and> pct c < 2 ^ 8) charge_level_lut"
  by (simp add: charge_level_lut_def mv_cl pct_cl)

section \<open>The estimator of the driver\<close>

text \<open>On the table of the driver the code computes what the specification describes.\<close>

lemma estimate_refines:
  "lithium_ion_mv_to_pct v = Inr (word_of_int (spec_estimate charge_level_lut (sint v)))"
  unfolding lithium_ion_mv_to_pct_def by (rule mv_to_pct_refines [OF lut_agrees lut_nonempty])

lemma estimate_range:
  "0 \<le> spec_estimate charge_level_lut v" "spec_estimate charge_level_lut v \<le> 100"
  using spec_estimate_range [OF lut_ascending lut_nonempty, of v] by (simp_all add: lut_last)

lemma estimate_mono:
  "v \<le> w \<Longrightarrow> spec_estimate charge_level_lut v \<le> spec_estimate charge_level_lut w"
  using spec_estimate_mono [OF lut_ascending lut_nonempty, of v w] by (simp add: lut_last)

lemma uint_percent: "0 \<le> p \<Longrightarrow> p \<le> 100 \<Longrightarrow> uint (word_of_int p :: 8 word) = p"
  by (simp add: uint_word_of_int_eq take_bit_int_eq_self)

lemma estimate_above: "4177 \<le> v \<Longrightarrow> spec_estimate charge_level_lut v = 100"
  by (simp add: spec_estimate_def lut_last)

lemma estimate_below: "v < 3434 \<Longrightarrow> spec_estimate charge_level_lut v = 0"
proof -
  assume v: "v < 3434"
  have "all_brackets ascending (cl 3434 0 # tl charge_level_lut)"
    using lut_ascending lut_first by simp
  from spec_scan_below [OF this] v have "spec_scan charge_level_lut v = 0"
    using lut_first by (simp add: mv_cl)
  with v show ?thesis by (simp add: spec_estimate_def lut_last)
qed

lemma ascending_first:
  "all_brackets ascending (c # cs) \<Longrightarrow> i < length (c # cs) \<Longrightarrow> mv c \<le> mv ((c # cs) ! i)"
proof (induction cs arbitrary: c i)
  case Nil
  then show ?case by simp
next
  case (Cons hi rest)
  from Cons.prems(1) have asc: "ascending c hi" and tl: "all_brackets ascending (hi # rest)"
    by simp_all
  show ?case
  proof (cases i)
    case 0
    then show ?thesis by simp
  next
    case (Suc j)
    with Cons.IH [OF tl, of j] Cons.prems(2) ascendingD(1) [OF asc] show ?thesis by simp
  qed
qed

lemma find_bracket_lut_3650:
  "find_bracket charge_level_lut 3650 = Some (cl 3643 42, cl 3656 46)"
  by (simp add: charge_level_lut_def mv_cl)

lemma lut_breakpoints:
  "list_all (\<lambda>c. sint (word_of_int (mv c) :: 16 word) = mv c \<and>
      spec_estimate charge_level_lut (mv c) = pct c) charge_level_lut"
  unfolding spec_estimate_def lut_last spec_scan_def
  by (simp add: charge_level_lut_def mv_cl pct_cl spec_interp_def truncate_rat_def
      floor_rat_numeral_div)

section \<open>Properties of the estimator\<close>

text \<open>
  C1: for the input 3650 mV the scan stops at the bracket of the breakpoints (3643, 42) and
  (3656, 46), entries 11 and 12 of the table, and the estimator returns 44, the truncation
  of 42 + (46 - 42) * (3650 - 3643) / (3656 - 3643) computed with true division.
\<close>

theorem estimate_3650:
  "lithium_ion_mv_to_pct 3650 = Inr 44 \<and>
   charge_level_lut ! 11 = cl 3643 42 \<and> charge_level_lut ! 12 = cl 3656 46 \<and>
   scan_lut charge_level_lut 0 3650 = interpolate (cl 3643 42) (cl 3656 46) 3650 \<and>
   interpolate (cl 3643 42) (cl 3656 46) 3650 = Inr 44 \<and>
   truncate_rat (42 + (46 - 42) * (3650 - 3643) / (3656 - 3643)) = 44"
proof -
  have scan: "scan_lut charge_level_lut 0 3650 = interpolate (cl 3643 42) (cl 3656 46) 3650"
    by (simp add: scan_lut_find find_bracket_lut_3650)
  have interp: "interpolate (cl 3643 42) (cl 3656 46) 3650 = Inr 44"
    by (simp add: eval_double)
  have "\<not> mv (charge_level_lut ! (length charge_level_lut - 1)) \<le> 3650"
    using lut_last(1) by (simp add: last_conv_nth lut_nonempty)
  then have "lithium_ion_mv_to_pct 3650 = Inr 44"
    using scan interp by (simp add: lithium_ion_mv_to_pct_def mv_to_pct_def)
  moreover have "charge_level_lut ! 11 = cl 3643 42" "charge_level_lut ! 12 = cl 3656 46"
    by (simp_all add: charge_level_lut_def)
  moreover have "truncate_rat (42 + (46 - 42) * (3650 - 3643) / (3656 - 3643)) = 44"
    by (simp add: truncate_rat_def floor_rat_numeral_div)
  ultimately show ?thesis using scan interp by simp
qed

text \<open>
  C3: the estimator is monotonically non-decreasing: for inputs \<open>v1 \<le> v2\<close> (as signed
  16-bit millivolt values) it returns percents \<open>p1 \<le> p2\<close>.
\<close>

theorem estimate_monotone:
  assumes "sint v1 \<le> sint v2"
  shows "\<exists>p1 p2. lithium_ion_mv_to_pct v1 = Inr p1 \<and> lithium_ion_mv_to_pct v2 = Inr p2 \<and>
           uint p1 \<le> uint p2"
proof -
  from estimate_mono [OF assms]
  have "uint (word_of_int (spec_estimate charge_level_lut (sint v1)) :: 8 word)
      \<le> uint (word_of_int (spec_estimate charge_level_lut (sint v2)) :: 8 word)"
    by (simp add: uint_percent estimate_range)
  then show ?thesis by (simp add: estimate_refines)
qed

theorem estimate_monotone_witness:
  "sint (3500 :: 16 word) \<le> sint (3900 :: 16 word) \<and>
   (\<exists>p1 p2. lithium_ion_mv_to_pct 3500 = Inr p1 \<and> lithium_ion_mv_to_pct 3900 = Inr p2 \<and>
      uint p1 \<le> uint p2)"
proof -
  have h: "sint (3500 :: 16 word) \<le> sint (3900 :: 16 word)" by simp
  from estimate_monotone [OF h] h show ?thesis by blast
qed

text \<open>
  C4: the estimator is total: every input yields a percent between 0 and 100 and never a
  fault; inputs below the table yield 0 and inputs above it yield 100.
\<close>

theorem estimate_total:
  "\<exists>p. lithium_ion_mv_to_pct v = Inr p \<and> uint p \<le> 100 \<and>
     (sint v < 3434 \<longrightarrow> p = 0) \<and> (4177 \<le> sint v \<longrightarrow> p = 100)"
proof -
  have "uint (word_of_int (spec_estimate charge_level_lut (sint v)) :: 8 word) \<le> 100"
    by (simp add: uint_percent estimate_range)
  then show ?thesis
    by (auto simp: estimate_refines estimate_below estimate_above)
qed

theorem estimate_total_witness:
  "sint (- 200 :: 16 word) < 3434 \<and> 4177 \<le> sint (5000 :: 16 word) \<and>
   lithium_ion_mv_to_pct (- 200) = Inr 0 \<and> lithium_ion_mv_to_pct 5000 = Inr 100"
  using estimate_total [of "- 200"] estimate_total [of 5000] by auto

text \<open>C5: every input of at least 4177 mV, the voltage of the last breakpoint, yields 100.\<close>

theorem estimate_saturates_above:
  "4177 \<le> sint v \<Longrightarrow> lithium_ion_mv_to_pct v = Inr 100"
  using lut_last(1)
  by (simp add: lithium_ion_mv_to_pct_def mv_to_pct_def last_conv_nth lut_nonempty)

theorem estimate_saturates_above_witness:
  "4177 \<le> sint (4177 :: 16 word) \<and> lithium_ion_mv_to_pct 4177 = Inr 100"
  using estimate_saturates_above [of 4177] by simp

text \<open>
  C6: for every input below 3434 mV, the voltage of the first breakpoint, no adjacent pair
  of the table brackets the input, the scan runs to its end and the estimator returns the
  initial 0.
\<close>

theorem estimate_falls_through_below:
  assumes "sint v < 3434"
  shows "(\<forall>i. i + 1 < length charge_level_lut \<longrightarrow>
            \<not> (mv (charge_level_lut ! i) \<le> sint v \<and> sint v \<le> mv (charge_level_lut ! (i + 1)))) \<and>
         scan_lut charge_level_lut 0 (sint v) = Inr 0 \<and>
         lithium_ion_mv_to_pct v = Inr 0"
proof -
  have asc: "all_brackets ascending (cl 3434 0 # tl charge_level_lut)"
    using lut_ascending lut_first by simp
  have "\<not> mv (charge_level_lut ! i) \<le> sint v" if "i + 1 < length charge_level_lut" for i
  proof -
    from ascending_first [OF asc, of i] that lut_first
    have "mv (cl 3434 0) \<le> mv (charge_level_lut ! i)" by simp
    with assms show ?thesis by (simp add: mv_cl)
  qed
  then have no_match: "\<forall>i. i + 1 < length charge_level_lut \<longrightarrow>
      \<not> (mv (charge_level_lut ! i) \<le> sint v \<and> sint v \<le> mv (charge_level_lut ! (i + 1)))"
    by blast
  from find_bracket_below [OF asc, of "sint v"] assms lut_first
  have "find_bracket charge_level_lut (sint v) = None" by (simp add: mv_cl)
  then have scan: "scan_lut charge_level_lut 0 (sint v) = Inr 0"
    by (simp add: scan_lut_find)
  have "\<not> mv (charge_level_lut ! (length charge_level_lut - 1)) \<le> sint v"
    using lut_last(1) assms by (simp add: last_conv_nth lut_nonempty)
  with scan have "lithium_ion_mv_to_pct v = Inr 0"
    by (simp add: lithium_ion_mv_to_pct_def mv_to_pct_def)
  with no_match scan show ?thesis by simp
qed

theorem estimate_falls_through_below_witness:
  "sint (3433 :: 16 word) < 3434 \<and> scan_lut charge_level_lut 0 (sint (3433 :: 16 word)) = Inr 0 \<and>
   lithium_ion_mv_to_pct 3433 = Inr 0"
proof -
  have h: "sint (3433 :: 16 word) < 3434" by simp
  from estimate_falls_through_below [OF h] h show ?thesis by blast
qed

text \<open>
  C7: at the voltage of a breakpoint of the table the estimator returns the percent stored
  in that breakpoint; in particular 0 at 3434 mV and 100 at 4177 mV.
\<close>

theorem estimate_at_breakpoints:
  "(\<forall>c \<in> set charge_level_lut.
      lithium_ion_mv_to_pct (word_of_int (mv c)) = Inr (word_of_int (pct c))) \<and>
   lithium_ion_mv_to_pct 3434 = Inr 0 \<and> lithium_ion_mv_to_pct 4177 = Inr 100"
proof -
  have all: "\<forall>c \<in> set charge_level_lut.
      lithium_ion_mv_to_pct (word_of_int (mv c)) = Inr (word_of_int (pct c))"
    using lut_breakpoints by (simp add: list_all_iff estimate_refines)
  have "cl 3434 0 \<in> set charge_level_lut" "cl 4177 100 \<in> set charge_level_lut"
    by (simp_all add: charge_level_lut_def)
  with all have "lithium_ion_mv_to_pct (word_of_int (mv (cl 3434 0))) = Inr (word_of_int (pct (cl 3434 0)))"
    "lithium_ion_mv_to_pct (word_of_int (mv (cl 4177 100))) = Inr (word_of_int (pct (cl 4177 100)))"
    by blast+
  with all show ?thesis by (simp add: mv_cl pct_cl)
qed

theorem estimate_at_breakpoints_witness:
  "cl 3733 58 \<in> set charge_level_lut \<and> lithium_ion_mv_to_pct 3733 = Inr 58"
proof -
  have h: "cl 3733 58 \<in> set charge_level_lut" by (simp add: charge_level_lut_def)
  with estimate_at_breakpoints
  have "lithium_ion_mv_to_pct (word_of_int (mv (cl 3733 58))) = Inr (word_of_int (pct (cl 3733 58)))"
    by blast
  with h show ?thesis by (simp add: mv_cl pct_cl)
qed

section \<open>Division by zero in the slope\<close>







section \<open>The sampling cycle\<close>

lemma supported_channel:
  "chan = SENSOR_CHAN_GAUGE_VOLTAGE \<or> chan = SENSOR_CHAN_GAUGE_STATE_OF_CHARGE \<or>
     chan = SENSOR_CHAN_ALL \<Longrightarrow>
   \<not> (chan \<noteq> SENSOR_CHAN_GAUGE_VOLTAGE \<and> chan \<noteq> SENSOR_CHAN_GAUGE_STATE_OF_CHARGE \<and>
      chan \<noteq> SENSOR_CHAN_ALL)"
  by blast

lemma store_sample_returns:
  assumes "output_ohm cfg \<noteq> 0"
  shows "\<exists>percent. lithium_ion_mv_to_pct
             (ucast (scale_up cfg (adc_raw_to_millivolts h (ucast (adc_raw d))))) = Inr percent \<and>
           store_sample h cfg d =
             Inr (d\<lparr>voltage := ucast (scale_up cfg (adc_raw_to_millivolts h (ucast (adc_raw d)))),
                    state_of_charge := percent\<rparr>)"
  using assms by (simp add: store_sample_def Let_def estimate_refines)

lemma scale_up_exact:
  assumes "0 \<le> sint val"
  shows "uint (scale_up cfg val) = sint val * uint (full_ohm cfg) div uint (output_ohm cfg)"
proof -
  have s: "sint val < 2 ^ 31" using sint_lt [of val] by simp
  have "uint (scast val :: 64 word) = take_bit LENGTH(64) (sint val)"
    by (simp only: scast_eq uint_word_of_int_eq)
  also have "\<dots> = sint val"
    using assms s by (simp add: take_bit_int_eq_self)
  finally have a: "uint (scast val :: 64 word) = sint val" .
  have b: "uint (ucast (full_ohm cfg) :: 64 word) = uint (full_ohm cfg)"
    by (simp add: uint_up_ucast is_up)
  have c: "uint (ucast (output_ohm cfg) :: 64 word) = uint (output_ohm cfg)"
    by (simp add: uint_up_ucast is_up)
  have f: "uint (full_ohm cfg) < 2 ^ 32" using uint_lt2p [of "full_ohm cfg"] by simp
  have "sint val * uint (full_ohm cfg) \<le> 2 ^ 31 * 2 ^ 32"
    using assms s f by (intro mult_mono) simp_all
  then have "uint (scast val :: 64 word) * uint (ucast (full_ohm cfg) :: 64 word) < 2 ^ LENGTH(64)"
    by (simp add: a b)
  then have "uint ((scast val :: 64 word) * ucast (full_ohm cfg)) = sint val * uint (full_ohm cfg)"
    by (simp add: uint_mult_lem [THEN iffD1] a b)
  then show ?thesis by (simp add: scale_up_def uint_div c)
qed

text \<open>
  C8 (as stated): a failed read would leave \<open>voltage\<close> and \<open>state_of_charge\<close> unchanged
  and return the error code of the read.  With a power gate whose release fails too -- the
  read fails with -5, the release with -22 -- the two fields are unchanged but the cycle
  returns -22.
\<close>

theorem failed_read_failed_release:
  "fst (adc_read read_and_release_fail_host) = - 5 \<and>
   bvd_sample_fetch read_and_release_fail_host sample_cfg sample_data SENSOR_CHAN_ALL =
     Inr (- 22, sample_data\<lparr>adc_raw := 0, as_calibrate := False\<rparr>,
          [Gpio_Pin_Set 5 1, Adc_Read, Gpio_Pin_Set 5 0])"
  by (simp add: bvd_sample_fetch_def read_and_release_fail_host_def release_fails_def
      sample_cfg_def sample_data_def Let_def)

text \<open>
  C8 (amended): when the read of a cycle fails, \<open>voltage\<close> and \<open>state_of_charge\<close> keep
  their values, and the cycle returns the error code of the read, unless a power gate is
  present and its release fails: then it returns the error code of the release.
\<close>

theorem failed_read_keeps_values:
  assumes "chan = SENSOR_CHAN_GAUGE_VOLTAGE \<or> chan = SENSOR_CHAN_GAUGE_STATE_OF_CHARGE \<or>
      chan = SENSOR_CHAN_ALL"
    and "gpio d \<longrightarrow> gpio_pin_set h (power_gpios_pin cfg) 1 = 0"
    and "fst (adc_read h) \<noteq> 0"
  shows "\<exists>d' requests.
           bvd_sample_fetch h cfg d chan =
             Inr (if gpio d \<and> gpio_pin_set h (power_gpios_pin cfg) 0 \<noteq> 0
                  then gpio_pin_set h (power_gpios_pin cfg) 0 else fst (adc_read h),
                  d', requests) \<and>
           voltage d' = voltage d \<and> state_of_charge d' = state_of_charge d"
  using supported_channel [OF assms(1)] assms(2,3)
  by (auto simp: bvd_sample_fetch_def Let_def)

theorem failed_read_keeps_values_witness:
  "gpio sample_data \<and> gpio_pin_set read_fails_host (power_gpios_pin sample_cfg) 1 = 0 \<and>
   fst (adc_read read_fails_host) \<noteq> 0 \<and>
   (\<exists>d' requests.
      bvd_sample_fetch read_fails_host sample_cfg sample_data SENSOR_CHAN_ALL =
        Inr (- 5, d', requests) \<and>
      voltage d' = 3700 \<and> state_of_charge d' = 54)"
proof -
  have c: "SENSOR_CHAN_ALL = SENSOR_CHAN_GAUGE_VOLTAGE \<or>
      SENSOR_CHAN_ALL = SENSOR_CHAN_GAUGE_STATE_OF_CHARGE \<or> SENSOR_CHAN_ALL = SENSOR_CHAN_ALL"
    by simp
  have g: "gpio sample_data \<longrightarrow> gpio_pin_set read_fails_host (power_gpios_pin sample_cfg) 1 = 0"
    by (simp add: read_fails_host_def always_ok_def)
  have r: "fst (adc_read read_fails_host) \<noteq> 0"
    by (simp add: read_fails_host_def)
  from failed_read_keeps_values [OF c g r] r show ?thesis
    by (simp add: read_fails_host_def always_ok_def sample_data_def)
qed

text \<open>
  C9: on every path of a cycle that returns after the power gate was enabled successfully,
  the last request to the host commands the gate inactive; the cycle does return on the
  path of a failed read, and on every path when the output resistance is not zero.
\<close>

theorem power_gate_released:
  assumes "chan = SENSOR_CHAN_GAUGE_VOLTAGE \<or> chan = SENSOR_CHAN_GAUGE_STATE_OF_CHARGE \<or>
      chan = SENSOR_CHAN_ALL"
    and "gpio d"
    and "gpio_pin_set h (power_gpios_pin cfg) 1 = 0"
  shows "(\<forall>rc d' requests. bvd_sample_fetch h cfg d chan = Inr (rc, d', requests) \<longrightarrow>
            requests = [Gpio_Pin_Set (power_gpios_pin cfg) 1, Adc_Read,
                        Gpio_Pin_Set (power_gpios_pin cfg) 0]) \<and>
         (fst (adc_read h) \<noteq> 0 \<or> output_ohm cfg \<noteq> 0 \<longrightarrow>
            (\<exists>rc d'. bvd_sample_fetch h cfg d chan =
               Inr (rc, d', [Gpio_Pin_Set (power_gpios_pin cfg) 1, Adc_Read,
                             Gpio_Pin_Set (power_gpios_pin cfg) 0])))"
proof (intro conjI allI impI)
  fix rc d' requests
  assume "bvd_sample_fetch h cfg d chan = Inr (rc, d', requests)"
  with supported_channel [OF assms(1)] assms(2,3)
  show "requests = [Gpio_Pin_Set (power_gpios_pin cfg) 1, Adc_Read,
                    Gpio_Pin_Set (power_gpios_pin cfg) 0]"
    by (auto simp: bvd_sample_fetch_def Let_def split: if_splits sum.splits)
next
  assume "fst (adc_read h) \<noteq> 0 \<or> output_ohm cfg \<noteq> 0"
  then show "\<exists>rc d'. bvd_sample_fetch h cfg d chan =
      Inr (rc, d', [Gpio_Pin_Set (power_gpios_pin cfg) 1, Adc_Read,
                    Gpio_Pin_Set (power_gpios_pin cfg) 0])"
  proof (cases "fst (adc_read h) = 0")
    case False
    with supported_channel [OF assms(1)] assms(2,3) show ?thesis
      by (auto simp: bvd_sample_fetch_def Let_def)
  next
    case True
    with \<open>fst (adc_read h) \<noteq> 0 \<or> output_ohm cfg \<noteq> 0\<close> have "output_ohm cfg \<noteq> 0" by simp
    from store_sample_returns [OF this, of h "d\<lparr>adc_raw := snd (adc_read h), as_calibrate := False\<rparr>"]
    obtain d2 where "store_sample h cfg (d\<lparr>adc_raw := snd (adc_read h), as_calibrate := False\<rparr>) = Inr d2"
      by blast
    with True supported_channel [OF assms(1)] assms(2,3) show ?thesis
      by (auto simp: bvd_sample_fetch_def Let_def)
  qed
qed

theorem power_gate_released_witness:
  "gpio sample_data \<and> gpio_pin_set read_fails_host (power_gpios_pin sample_cfg) 1 = 0 \<and>
   fst (adc_read read_fails_host) \<noteq> 0 \<and>
   (\<exists>rc d'. bvd_sample_fetch read_fails_host sample_cfg sample_data SENSOR_CHAN_ALL =
      Inr (rc, d', [Gpio_Pin_Set 5 1, Adc_Read, Gpio_Pin_Set 5 0]))"
proof -
  have c: "SENSOR_CHAN_ALL = SENSOR_CHAN_GAUGE_VOLTAGE \<or>
      SENSOR_CHAN_ALL = SENSOR_CHAN_GAUGE_STATE_OF_CHARGE \<or> SENSOR_CHAN_ALL = SENSOR_CHAN_ALL"
    by simp
  have g: "gpio sample_data" by (simp add: sample_data_def)
  have e: "gpio_pin_set read_fails_host (power_gpios_pin sample_cfg) 1 = 0"
    by (simp add: read_fails_host_def always_ok_def)
  have r: "fst (adc_read read_fails_host) \<noteq> 0" by (simp add: read_fails_host_def)
  from power_gate_released [OF c g e] r g e show ?thesis
    by (simp add: sample_cfg_def)
qed

text \<open>
  C10: after a successful read the stored voltage is the low 16 bits of the 64-bit value
  \<open>val * full_ohm / output_ohm\<close>, that is the value modulo \<open>2 ^ 16\<close> and not a saturated
  one; for a non-negative \<open>val\<close> the 64-bit value is the exact quotient; and the stored
  percent is the estimate for the wrapped voltage.
\<close>

theorem scaled_voltage_wraps:
  assumes "chan = SENSOR_CHAN_GAUGE_VOLTAGE \<or> chan = SENSOR_CHAN_GAUGE_STATE_OF_CHARGE \<or>
      chan = SENSOR_CHAN_ALL"
    and "gpio d \<longrightarrow> gpio_pin_set h (power_gpios_pin cfg) 1 = 0"
    and "fst (adc_read h) = 0"
    and "output_ohm cfg \<noteq> 0"
    and "val = adc_raw_to_millivolts h (ucast (snd (adc_read h)))"
  shows "\<exists>rc d' requests.
           bvd_sample_fetch h cfg d chan = Inr (rc, d', requests) \<and>
           uint (voltage d') = uint (scale_up cfg val) mod 2 ^ 16 \<and>
           (0 \<le> sint val \<longrightarrow>
              uint (voltage d') =
                (sint val * uint (full_ohm cfg) div uint (output_ohm cfg)) mod 2 ^ 16) \<and>
           lithium_ion_mv_to_pct (voltage d') = Inr (state_of_charge d')"
proof -
  let ?d1 = "d\<lparr>adc_raw := snd (adc_read h), as_calibrate := False\<rparr>"
  from store_sample_returns [OF assms(4), of h ?d1] assms(5)
  obtain percent where p: "lithium_ion_mv_to_pct (ucast (scale_up cfg val)) = Inr percent"
    and s: "store_sample h cfg ?d1 =
      Inr (?d1\<lparr>voltage := ucast (scale_up cfg val), state_of_charge := percent\<rparr>)"
    by auto
  have w: "uint (ucast (scale_up cfg val) :: 16 word) = uint (scale_up cfg val) mod 2 ^ 16"
    by (simp add: unsigned_ucast_eq take_bit_eq_mod)
  from supported_channel [OF assms(1)] assms(2,3) s p w scale_up_exact [of val cfg]
  show ?thesis
    by (auto simp: bvd_sample_fetch_def Let_def)
qed

theorem scaled_voltage_wraps_witness:
  "gpio sample_data \<and> gpio_pin_set working_host (power_gpios_pin sample_cfg) 1 = 0 \<and>
   fst (adc_read working_host) = 0 \<and> output_ohm sample_cfg \<noteq> 0 \<and>
   0 \<le> sint (3000 :: 32 word) \<and>
   65536 \<le> sint (3000 :: 32 word) * uint (full_ohm sample_cfg) div uint (output_ohm sample_cfg) \<and>
   (\<exists>rc d' requests.
      bvd_sample_fetch working_host sample_cfg sample_data SENSOR_CHAN_ALL =
        Inr (rc, d', requests) \<and>
      uint (voltage d') = 24464 \<and>
      lithium_ion_mv_to_pct (voltage d') = Inr (state_of_charge d'))"
proof -
  have c: "SENSOR_CHAN_ALL = SENSOR_CHAN_GAUGE_VOLTAGE \<or>
      SENSOR_CHAN_ALL = SENSOR_CHAN_GAUGE_STATE_OF_CHARGE \<or> SENSOR_CHAN_ALL = SENSOR_CHAN_ALL"
    by simp
  have g: "gpio sample_data \<longrightarrow> gpio_pin_set working_host (power_gpios_pin sample_cfg) 1 = 0"
    by (simp add: working_host_def always_ok_def)
  have r: "fst (adc_read working_host) = 0" by (simp add: working_host_def)
  have z: "output_ohm sample_cfg \<noteq> 0" by (simp add: sample_cfg_def)
  have v: "(3000 :: 32 word) = adc_raw_to_millivolts working_host (ucast (snd (adc_read working_host)))"
    by (simp add: working_host_def to_3000_def)
  have n: "0 \<le> sint (3000 :: 32 word)" by simp
  have q: "sint (3000 :: 32 word) * uint (full_ohm sample_cfg) div uint (output_ohm sample_cfg) = 90000"
    by (simp add: sample_cfg_def)
  have e: "gpio sample_data \<and> gpio_pin_set working_host (power_gpios_pin sample_cfg) 1 = 0"
    by (simp add: working_host_def always_ok_def sample_data_def)
  from scaled_voltage_wraps [OF c g r z v] n q e r z show ?thesis
    by simp blast
qed

end
